theory Spec2Isabelle
  imports Main "HOL-Library.Word" "HOL-Library.AList" "HOL-Library.Multiset"
begin

section \<open>Data model of query/mutation.go\<close>

text \<open>
  Identifiers are Go \<open>uint64\<close> values: addition wraps around at \<open>2 ^ 64\<close>.
  Byte slices and Go strings are both \<open>string\<close> (a list of bytes).
\<close>

type_synonym u64 = "64 word"

text \<open>A facet is a key with a value; the file only passes facet lists on.\<close>

type_synonym Facet = "string \<times> string"

text \<open>
  \<open>protos.DirectedEdge_Op\<close> is a protobuf enum, in Go an \<open>int32\<close> with the two named
  values \<open>DirectedEdge_SET\<close> and \<open>DirectedEdge_DEL\<close>; any other number is a value of
  the type too, which is what the assertion at the head of the loop of \<open>expandEdges\<close>
  excludes.
\<close>

datatype DirectedEdge_Op = DirectedEdge_SET | DirectedEdge_DEL | DirectedEdge_Op_other int

text \<open>
  \<open>protos.DirectedEdge\<close>, with the fields the file reads or writes, and the facets. A
  composite literal of the source that names only some fields leaves the others at
  their zero value.
\<close>

record DirectedEdge =
  Entity :: u64
  Attr :: string
  Value :: string
  ValueId :: u64
  Op :: DirectedEdge_Op
  Facets :: "Facet list"

text \<open>
  The object value of a statement is a protobuf \<open>oneof\<close>: the default-value variant,
  which carries a string, or another typed variant. \<open>ObjectValue\<close> is a pointer and may
  be nil (\<open>None\<close>).
\<close>

datatype Val = Value_DefaultVal string | Value_OtherVal string

record NQuad =
  Subject :: string
  Predicate :: string
  ObjectId :: string
  ObjectValue :: "Val option"
  Facets :: "Facet list"

text \<open>
  Modelled from the spec: the generated getter \<open>GetDefaultVal\<close> of \<open>protos.Value\<close>, which
  is not part of the file: the string of the default-value variant, and the empty
  string for a nil pointer and for every other variant.
\<close>

fun GetDefaultVal :: "Val option \<Rightarrow> string" where
  "GetDefaultVal (Some (Value_DefaultVal s)) = s"
| "GetDefaultVal _ = []"

text \<open>\<open>gql.Mutation\<close>: the statements to set and the statements to delete.\<close>

record Mutation =
  Set :: "NQuad list"
  Del :: "NQuad list"

text \<open>\<open>protos.Mutations\<close>: the edges and the read timestamp.\<close>

record Mutations =
  Edges :: "DirectedEdge list"
  StartTs :: u64

record TaskValue =
  Val :: string

record ValueList =
  Values :: "TaskValue list"

record AssignedIds =
  StartId :: u64
  EndId :: u64

text \<open>
  A Go \<open>map[string]uint64\<close> is a list of pairs with distinct keys: \<open>AList.update\<close> is
  the assignment \<open>m[k] = v\<close>, and \<open>length\<close> is \<open>len\<close>.
\<close>

type_synonym uidmap = "(string \<times> u64) list"

text \<open>
  Every error value the file builds itself has a constructor; \<open>Upstream\<close> is an error
  made by a collaborator. A failed \<open>x.AssertTrue\<close> or \<open>x.AssertTruef\<close> ends the
  process: it is the value \<open>Fatal\<close>.
\<close>

datatype error =
    ExpandEdgeDisabled
  | ValueMatrixLength u64
  | UidBeyondLease u64 u64
  | PredicateDeletionViaAlter
  | Wrap error
  | Wrapf error string
  | Upstream string
  | Fatal string

text \<open>The requests the file sends over the network, in the order they are sent.\<close>

datatype call = AssignUidsOverNetwork_call u64 | MutateOverNetwork_call Mutations

text \<open>
  What the file takes from other packages. The constant \<open>x.Star\<close> and the flag
  \<open>worker.Config.ExpandEdge\<close> are values; the reads of the storage snapshot and of the
  schema are functions of their arguments; the two network requests are functions
  from the request to the reply, and each use of one is recorded in the list of calls
  of the caller. \<open>facets.SortAndValidate\<close> sorts the slice it is given in place: the
  model returns the sorted list. The transaction context is a type parameter.
\<close>

record 'ctx world =
  ExpandEdge :: bool
  Star :: string
  MaxLeaseId :: u64
  getNodePredicates :: "u64 list \<Rightarrow> u64 \<Rightarrow> error + ValueList list"
  IsReversed :: "string \<Rightarrow> bool"
  Uids :: "string \<Rightarrow> u64 \<Rightarrow> u64 \<Rightarrow> error + u64 list"
  ParseUid :: "string \<Rightarrow> error + u64"
  AssignUidsOverNetwork :: "u64 \<Rightarrow> error + AssignedIds"
  MutateOverNetwork :: "Mutations \<Rightarrow> 'ctx option \<times> error option"
  SortAndValidate :: "Facet list \<Rightarrow> error + Facet list"
  ToEdgeUsing :: "NQuad \<Rightarrow> uidmap \<Rightarrow> error + DirectedEdge"

section \<open>expandEdges\<close>

text \<open>
  The predicates of one edge (lines 59 to 79): the edge's own predicate, or for the
  wildcard the non-empty values of the single list that \<open>getNodePredicates\<close> returns
  for the entity at the read timestamp.
\<close>

definition edgePreds :: "'ctx world \<Rightarrow> Mutations \<Rightarrow> DirectedEdge \<Rightarrow> error + string list" where
  "edgePreds w m edge =
     (if Attr edge \<noteq> Star w then Inr [Attr edge]
      else case getNodePredicates w [Entity edge] (StartTs m) of
             Inl err \<Rightarrow> Inl err
           | Inr valMatrix \<Rightarrow>
               if length valMatrix \<noteq> 1 then Inl (ValueMatrixLength (Entity edge))
               else Inr (map Val (filter (\<lambda>tv. length (Val tv) > 0) (Values (hd valMatrix)))))"

text \<open>The two synthetic edges of lines 86 to 91 and 110 to 115.\<close>

definition predicateEdge :: "DirectedEdge \<Rightarrow> string \<Rightarrow> DirectedEdge" where
  "predicateEdge edge pred =
     \<lparr>Entity = Entity edge, Attr = ''_predicate_'', Value = pred, ValueId = 0,
      Op = Op edge, DirectedEdge.Facets = []\<rparr>"

definition reverseEdge :: "DirectedEdge \<Rightarrow> string \<Rightarrow> u64 \<Rightarrow> DirectedEdge" where
  "reverseEdge edge pred obj =
     \<lparr>Entity = obj, Attr = ''_predicate_'', Value = ''~'' @ pred, ValueId = 0,
      Op = Op edge, DirectedEdge.Facets = []\<rparr>"

text \<open>The targets of a reverse-indexed predicate (lines 98 to 108).\<close>

definition reverseObjs :: "'ctx world \<Rightarrow> Mutations \<Rightarrow> DirectedEdge \<Rightarrow> string \<Rightarrow> error + u64 list" where
  "reverseObjs w m edge pred =
     (if Value edge \<noteq> Star w then Inr [ValueId edge]
      else Uids w pred (Entity edge) (StartTs m))"

text \<open>The loop over the predicates of one edge (lines 81 to 118), appending to \<open>edges\<close>.\<close>

fun expandPreds ::
  "'ctx world \<Rightarrow> Mutations \<Rightarrow> DirectedEdge \<Rightarrow> string list \<Rightarrow> DirectedEdge list
     \<Rightarrow> error + DirectedEdge list" where
  "expandPreds w m edge [] edges = Inr edges"
| "expandPreds w m edge (pred # preds) edges =
     (let edgeCopy = edge\<lparr>Attr := pred\<rparr>;
          edges1 = edges @ [edgeCopy];
          edges2 = edges1 @ [predicateEdge edge pred]
      in if \<not> IsReversed w pred then expandPreds w m edge preds edges2
         else case reverseObjs w m edge pred of
                Inl err \<Rightarrow> Inl err
              | Inr objs \<Rightarrow>
                  expandPreds w m edge preds (edges2 @ map (reverseEdge edge pred) objs))"

text \<open>The shape that line 52 passes on unexpanded.\<close>

definition passedOn :: "'ctx world \<Rightarrow> DirectedEdge \<Rightarrow> bool" where
  "passedOn w edge \<longleftrightarrow> Op edge = DirectedEdge_DEL \<and> Entity edge = 0 \<and> Value edge = Star w"

text \<open>The loop over the edges of the mutation (lines 49 to 119).\<close>

fun expandLoop ::
  "'ctx world \<Rightarrow> Mutations \<Rightarrow> DirectedEdge list \<Rightarrow> DirectedEdge list
     \<Rightarrow> error + DirectedEdge list" where
  "expandLoop w m [] edges = Inr edges"
| "expandLoop w m (edge # rest) edges =
     (if \<not> (Op edge = DirectedEdge_DEL \<or> Op edge = DirectedEdge_SET)
      then Inl (Fatal ''assertion failed'')
      else if passedOn w edge then expandLoop w m rest (edges @ [edge])
      else case edgePreds w m edge of
             Inl err \<Rightarrow> Inl err
           | Inr preds \<Rightarrow>
               (case expandPreds w m edge preds edges of
                  Inl err \<Rightarrow> Inl err
                | Inr edges' \<Rightarrow> expandLoop w m rest edges'))"

definition expandEdges :: "'ctx world \<Rightarrow> Mutations \<Rightarrow> error + DirectedEdge list" where
  "expandEdges w m = expandLoop w m (Edges m) []"

section \<open>ApplyMutations\<close>

text \<open>The loop of lines 31 to 36: the error of the first edge with the wildcard predicate.\<close>

fun rejectStar :: "'ctx world \<Rightarrow> DirectedEdge list \<Rightarrow> error option" where
  "rejectStar w [] = None"
| "rejectStar w (mu # mus) =
     (if Attr mu = Star w \<and> \<not> ExpandEdge w then Some ExpandEdgeDisabled
      else rejectStar w mus)"

text \<open>
  The result is the list of network requests made, and the pair of transaction context
  and error that the source returns.
\<close>

definition ApplyMutations ::
  "'ctx world \<Rightarrow> Mutations \<Rightarrow> call list \<times> 'ctx option \<times> error option" where
  "ApplyMutations w m =
     (if ExpandEdge w then
        (case expandEdges w m of
           Inl err \<Rightarrow> ([], None, Some (Wrapf err ''While adding internal edges''))
         | Inr edges \<Rightarrow>
             (let m' = m\<lparr>Edges := edges\<rparr>
              in ([MutateOverNetwork_call m'], MutateOverNetwork w m')))
      else
        (case rejectStar w (Edges m) of
           Some err \<Rightarrow> ([], None, Some err)
         | None \<Rightarrow> ([MutateOverNetwork_call m], MutateOverNetwork w m)))"

section \<open>verifyUid and AssignUids\<close>

definition verifyUid :: "'ctx world \<Rightarrow> u64 \<Rightarrow> error option" where
  "verifyUid w uid =
     (let maxLeaseId = MaxLeaseId w
      in if uid > maxLeaseId + 10000 then Some (UidBeyondLease uid maxLeaseId) else None)"

definition HasPrefix :: "string \<Rightarrow> string \<Rightarrow> bool" where
  "HasPrefix s p \<longleftrightarrow> take (length p) s = p"

text \<open>
  Lines 143 to 153 for the subject and lines 155 to 165 for the object are the same
  code on two fields: a blank-node label is entered in the map with 0, any other
  non-empty reference is parsed, and the identifier (0 for a label) is verified.
\<close>

definition scanRef :: "'ctx world \<Rightarrow> string \<Rightarrow> uidmap \<Rightarrow> uidmap \<times> error option" where
  "scanRef w ref newUids =
     (if length ref > 0 then
        (if HasPrefix ref ''_:'' then
           (let newUids' = AList.update ref 0 newUids
            in (newUids', verifyUid w 0))
         else case ParseUid w ref of
                Inl err \<Rightarrow> (newUids, Some err)
              | Inr uid \<Rightarrow> (newUids, verifyUid w uid))
      else (newUids, None))"

text \<open>The loop of lines 137 to 166; \<open>Some err\<close> is \<open>return newUids, err\<close>.\<close>

fun scanNQuads :: "'ctx world \<Rightarrow> NQuad list \<Rightarrow> uidmap \<Rightarrow> uidmap \<times> error option" where
  "scanNQuads w [] newUids = (newUids, None)"
| "scanNQuads w (nq # nquads) newUids =
     (if Subject nq = Star w \<and> GetDefaultVal (ObjectValue nq) = Star w
      then scanNQuads w nquads newUids
      else case scanRef w (Subject nq) newUids of
             (newUids1, Some err) \<Rightarrow> (newUids1, Some err)
           | (newUids1, None) \<Rightarrow>
               (case scanRef w (ObjectId nq) newUids1 of
                  (newUids2, Some err) \<Rightarrow> (newUids2, Some err)
                | (newUids2, None) \<Rightarrow> scanNQuads w nquads newUids2))"

text \<open>
  Go leaves the order in which \<open>range\<close> visits the keys of a map open; it visits each
  key once. The order is a parameter: a list of numbers, each choosing which of the
  keys not yet visited comes next.
\<close>

fun rangeOrder :: "nat list \<Rightarrow> 'a list \<Rightarrow> 'a list" where
  "rangeOrder [] ks = ks"
| "rangeOrder (c # cs) ks =
     (if ks = [] then []
      else (let i = c mod length ks
            in ks ! i # rangeOrder cs (take i ks @ drop (Suc i) ks)))"

text \<open>The loop of lines 181 to 185 over the keys in the order given.\<close>

fun assignLoop :: "AssignedIds \<Rightarrow> string list \<Rightarrow> u64 \<Rightarrow> uidmap \<Rightarrow> uidmap \<times> error option" where
  "assignLoop res [] curId newUids = (newUids, None)"
| "assignLoop res (k # ks) curId newUids =
     (if curId \<noteq> 0 \<and> curId \<le> EndId res
      then assignLoop res ks (curId + 1) (AList.update k curId newUids)
      else (newUids, Some (Fatal ''not enough uids generated'')))"

text \<open>
  The result is the list of network requests made, the map and the error. \<open>int\<close> is the
  64-bit signed integer: \<open>int(num.Val) > 0\<close> reads the count as signed.
\<close>

definition AssignUids ::
  "'ctx world \<Rightarrow> nat list \<Rightarrow> NQuad list \<Rightarrow> call list \<times> uidmap \<times> error option" where
  "AssignUids w order nquads =
     (case scanNQuads w nquads [] of
        (newUids, Some err) \<Rightarrow> ([], newUids, Some err)
      | (newUids, None) \<Rightarrow>
          (let num = (of_nat (length newUids) :: u64)
           in if sint num > 0 then
                (case AssignUidsOverNetwork w num of
                   Inl err \<Rightarrow> ([AssignUidsOverNetwork_call num], newUids, Some err)
                 | Inr res \<Rightarrow>
                     ([AssignUidsOverNetwork_call num],
                      assignLoop res (rangeOrder order (map fst newUids)) (StartId res) newUids))
              else ([], newUids, None)))"

section \<open>ToInternal\<close>

text \<open>The closure \<open>parse\<close> of lines 196 to 210, with \<open>edges\<close> passed and returned.\<close>

definition parse ::
  "'ctx world \<Rightarrow> uidmap \<Rightarrow> NQuad \<Rightarrow> DirectedEdge_Op \<Rightarrow> DirectedEdge list
     \<Rightarrow> DirectedEdge list \<times> error option" where
  "parse w newUids nq op edges =
     (if length (Subject nq) = 0 then (edges, None)
      else case ToEdgeUsing w nq newUids of
             Inl err \<Rightarrow> (edges, Some (Wrap err))
           | Inr edge \<Rightarrow> (edges @ [edge\<lparr>Op := op\<rparr>], None))"

text \<open>The loop over \<open>gmu.Set\<close> (lines 212 to 219).\<close>

fun setLoop ::
  "'ctx world \<Rightarrow> uidmap \<Rightarrow> NQuad list \<Rightarrow> DirectedEdge list
     \<Rightarrow> DirectedEdge list \<times> error option" where
  "setLoop w newUids [] edges = (edges, None)"
| "setLoop w newUids (nq # nqs) edges =
     (case SortAndValidate w (NQuad.Facets nq) of
        Inl err \<Rightarrow> (edges, Some err)
      | Inr fs \<Rightarrow>
          (case parse w newUids (nq\<lparr>NQuad.Facets := fs\<rparr>) DirectedEdge_SET edges of
             (edges', Some err) \<Rightarrow> (edges', Some err)
           | (edges', None) \<Rightarrow> setLoop w newUids nqs edges'))"

text \<open>The shape that line 221 rejects.\<close>

definition alterShape :: "'ctx world \<Rightarrow> NQuad \<Rightarrow> bool" where
  "alterShape w nq \<longleftrightarrow> Subject nq = Star w \<and> GetDefaultVal (ObjectValue nq) = Star w"

text \<open>The loop over \<open>gmu.Del\<close> (lines 220 to 227).\<close>

fun delLoop ::
  "'ctx world \<Rightarrow> uidmap \<Rightarrow> NQuad list \<Rightarrow> DirectedEdge list
     \<Rightarrow> DirectedEdge list \<times> error option" where
  "delLoop w newUids [] edges = (edges, None)"
| "delLoop w newUids (nq # nqs) edges =
     (if alterShape w nq then (edges, Some PredicateDeletionViaAlter)
      else case parse w newUids nq DirectedEdge_DEL edges of
             (edges', Some err) \<Rightarrow> (edges', Some err)
           | (edges', None) \<Rightarrow> delLoop w newUids nqs edges')"

definition ToInternal ::
  "'ctx world \<Rightarrow> Mutation \<Rightarrow> uidmap \<Rightarrow> DirectedEdge list \<times> error option" where
  "ToInternal w gmu newUids =
     (case setLoop w newUids (Set gmu) [] of
        (edges, Some err) \<Rightarrow> (edges, Some err)
      | (edges, None) \<Rightarrow> delLoop w newUids (Del gmu) edges)"

section \<open>Vocabulary of the properties\<close>

text \<open>
  The edge that the loop over \<open>gmu.Set\<close> appends for a statement: the facets are
  sorted, the statement is resolved, and the edge is stamped \<open>SET\<close>. For the loop over
  \<open>gmu.Del\<close> there is no sorting and the stamp is \<open>DEL\<close>.
\<close>

definition setEdge :: "'ctx world \<Rightarrow> uidmap \<Rightarrow> NQuad \<Rightarrow> DirectedEdge \<Rightarrow> bool" where
  "setEdge w newUids nq e \<longleftrightarrow>
     (case SortAndValidate w (NQuad.Facets nq) of
        Inl err \<Rightarrow> False
      | Inr fs \<Rightarrow>
          (case ToEdgeUsing w (nq\<lparr>NQuad.Facets := fs\<rparr>) newUids of
             Inl err \<Rightarrow> False
           | Inr edge \<Rightarrow> e = edge\<lparr>Op := DirectedEdge_SET\<rparr>))"

definition delEdge :: "'ctx world \<Rightarrow> uidmap \<Rightarrow> NQuad \<Rightarrow> DirectedEdge \<Rightarrow> bool" where
  "delEdge w newUids nq e \<longleftrightarrow>
     (case ToEdgeUsing w nq newUids of
        Inl err \<Rightarrow> False
      | Inr edge \<Rightarrow> e = edge\<lparr>Op := DirectedEdge_DEL\<rparr>)"

definition succeeds :: "error + 'a \<Rightarrow> bool" where
  "succeeds r \<longleftrightarrow> (case r of Inl err \<Rightarrow> False | Inr v \<Rightarrow> True)"

text \<open>A statement with an empty subject is skipped by \<open>parse\<close>.\<close>

definition hasSubject :: "NQuad \<Rightarrow> bool" where
  "hasSubject nq \<longleftrightarrow> length (Subject nq) > 0"

text \<open>A statement passes a loop when the loop goes on to the next statement after it.\<close>

definition setPasses :: "'ctx world \<Rightarrow> uidmap \<Rightarrow> NQuad \<Rightarrow> bool" where
  "setPasses w newUids nq \<longleftrightarrow>
     (case SortAndValidate w (NQuad.Facets nq) of
        Inl err \<Rightarrow> False
      | Inr fs \<Rightarrow> if hasSubject nq then succeeds (ToEdgeUsing w (nq\<lparr>NQuad.Facets := fs\<rparr>) newUids) else True)"

definition delPasses :: "'ctx world \<Rightarrow> uidmap \<Rightarrow> NQuad \<Rightarrow> bool" where
  "delPasses w newUids nq \<longleftrightarrow>
     (if hasSubject nq then succeeds (ToEdgeUsing w nq newUids) else True)"

text \<open>
  The live predicates of an entity: the non-empty values of the list that
  \<open>getNodePredicates\<close> returns for it. The reverse edges that the loop of lines 109 to
  117 appends for one predicate.
\<close>

definition livePreds :: "ValueList \<Rightarrow> string list" where
  "livePreds vl = map Val (filter (\<lambda>tv. length (Val tv) > 0) (Values vl))"

definition fanOut :: "'ctx world \<Rightarrow> Mutations \<Rightarrow> DirectedEdge \<Rightarrow> string \<Rightarrow> DirectedEdge list" where
  "fanOut w m edge pred =
     (if IsReversed w pred
      then (case reverseObjs w m edge pred of
              Inl err \<Rightarrow> []
            | Inr objs \<Rightarrow> map (reverseEdge edge pred) objs)
      else [])"

section \<open>Sample inputs\<close>

text \<open>
  A small world for the concrete instances: the lease ceiling is 100, every entity has
  the predicates p1 and p2, p1 is reverse-indexed with targets 5 and 6, the lease
  authority grants the range that starts at 1000, facet keys must be distinct, and a
  statement resolves when its subject is the identifier 0x1 or a label of the map.
\<close>

definition sampleWorld :: "unit world" where
  "sampleWorld =
     \<lparr>ExpandEdge = False, Star = ''_STAR_ALL'', MaxLeaseId = 100,
      getNodePredicates = (\<lambda>uids ts. Inr [\<lparr>Values = [\<lparr>Val = ''p1''\<rparr>, \<lparr>Val = ''p2''\<rparr>]\<rparr>]),
      IsReversed = (\<lambda>pred. pred = ''p1''),
      Uids = (\<lambda>pred uid ts. Inr [5, 6]),
      ParseUid = (\<lambda>s. if s = ''0x1'' then Inr 1 else if s = ''0x2'' then Inr 2
                       else Inl (Upstream ''invalid uid'')),
      AssignUidsOverNetwork = (\<lambda>num. Inr \<lparr>StartId = 1000, EndId = 999 + num\<rparr>),
      MutateOverNetwork = (\<lambda>m. (Some (), None)),
      SortAndValidate = (\<lambda>fs. if distinct (map fst fs) then Inr fs
                              else Inl (Upstream ''duplicate facet key'')),
      ToEdgeUsing = (\<lambda>nq newUids.
         case (if Subject nq = ''0x1'' then Some 1
               else map_of newUids (Subject nq)) of
           None \<Rightarrow> Inl (Upstream ''uid not found'')
         | Some uid \<Rightarrow>
             Inr \<lparr>Entity = uid, Attr = Predicate nq, Value = GetDefaultVal (ObjectValue nq),
                  ValueId = 0, Op = DirectedEdge_SET, DirectedEdge.Facets = NQuad.Facets nq\<rparr>)\<rparr>"

text \<open>
  Edges and statements: a delete of every predicate of entity 1, a delete of every
  predicate from entity 1 to entity 9, an edge of the shape passed on, a statement on
  known identifiers, one of the shape of predicate deletion, one without a subject, one
  whose subject does not resolve, one with two labels; and the edges that the sample
  resolver makes for them.
\<close>

definition wildcardDelete :: DirectedEdge where
  "wildcardDelete =
     \<lparr>Entity = 1, Attr = ''_STAR_ALL'', Value = ''_STAR_ALL'', ValueId = 0,
      Op = DirectedEdge_DEL, DirectedEdge.Facets = []\<rparr>"

definition wildcardMutations :: Mutations where
  "wildcardMutations = \<lparr>Edges = [wildcardDelete], StartTs = 7\<rparr>"

definition knownNQuad :: NQuad where
  "knownNQuad =
     \<lparr>Subject = ''0x1'', Predicate = ''friend'', ObjectId = ''0x2'', ObjectValue = None,
      NQuad.Facets = []\<rparr>"


definition knownEdge :: "DirectedEdge_Op \<Rightarrow> DirectedEdge" where
  "knownEdge op =
     \<lparr>Entity = 1, Attr = ''friend'', Value = [], ValueId = 0,
      Op = op, DirectedEdge.Facets = []\<rparr>"

definition noSubjectNQuad :: NQuad where
  "noSubjectNQuad =
     \<lparr>Subject = [], Predicate = ''name'', ObjectId = [],
      ObjectValue = Some (Value_DefaultVal ''Alice''), NQuad.Facets = []\<rparr>"


definition labelNQuad :: NQuad where
  "labelNQuad =
     \<lparr>Subject = ''_:a'', Predicate = ''friend'', ObjectId = ''_:b'', ObjectValue = None,
      NQuad.Facets = []\<rparr>"

definition labelEdge :: DirectedEdge where
  "labelEdge =
     \<lparr>Entity = 1000, Attr = ''friend'', Value = [], ValueId = 0,
      Op = DirectedEdge_SET, DirectedEdge.Facets = []\<rparr>"

definition labelUids :: uidmap where
  "labelUids = [(''_:a'', 1000), (''_:b'', 1001)]"

definition skippingMutation :: Mutation where
  "skippingMutation = \<lparr>Set = [noSubjectNQuad], Del = []\<rparr>"

definition orderedMutation :: Mutation where
  "orderedMutation = \<lparr>Set = [knownNQuad, labelNQuad], Del = [knownNQuad]\<rparr>"



definition objectDelete :: DirectedEdge where
  "objectDelete =
     \<lparr>Entity = 1, Attr = ''_STAR_ALL'', Value = [], ValueId = 9,
      Op = DirectedEdge_DEL, DirectedEdge.Facets = []\<rparr>"

definition passedOnDelete :: DirectedEdge where
  "passedOnDelete =
     \<lparr>Entity = 0, Attr = ''name'', Value = ''_STAR_ALL'', ValueId = 0,
      Op = DirectedEdge_DEL, DirectedEdge.Facets = []\<rparr>"

definition bareWorld :: "unit world" where
  "bareWorld = sampleWorld\<lparr>getNodePredicates := (\<lambda>uids ts. Inr [\<lparr>Values = []\<rparr>])\<rparr>"

definition plainWorld :: "unit world" where
  "plainWorld = sampleWorld\<lparr>IsReversed := (\<lambda>pred. False)\<rparr>"

section \<open>verifyUid\<close>

text \<open>
  While the lease ceiling plus the margin stays below \<open>2 ^ 64\<close>, an identifier passes
  exactly when it is at most the ceiling plus 10000.
\<close>

lemma verifyUid_no_wrap:
  assumes "unat (MaxLeaseId w) + 10000 < 2 ^ 64"
  shows "verifyUid w uid = None \<longleftrightarrow> unat uid \<le> unat (MaxLeaseId w) + 10000"
proof -
  have "unat (MaxLeaseId w + 10000) = unat (MaxLeaseId w) + 10000"
    using assms by (simp add: unat_word_ariths)
  then show ?thesis
    by (simp add: verifyUid_def Let_def word_less_nat_alt)
qed

text \<open>
  C3. The claim is that for every lease ceiling an identifier of at most the ceiling
  plus 10000 passes. The sum of line 127 is a \<open>uint64\<close> sum and wraps around: with the
  ceiling at \<open>2 ^ 64 - 1\<close> the bound is 9999, and the identifier \<open>2 ^ 64 - 1\<close>, which
  equals the ceiling, is refused as greater than the lease.
\<close>

theorem verifyUid_wraps_at_ceiling:
  "verifyUid (sampleWorld\<lparr>MaxLeaseId := 18446744073709551615\<rparr>) 18446744073709551615
     = Some (UidBeyondLease 18446744073709551615 18446744073709551615)"
  by (simp add: verifyUid_def sampleWorld_def)

section \<open>ApplyMutations with expansion disabled\<close>

lemma rejectStar_Some:
  "\<not> ExpandEdge w \<Longrightarrow> mu \<in> set mus \<Longrightarrow> Attr mu = Star w
     \<Longrightarrow> rejectStar w mus = Some ExpandEdgeDisabled"
  by (induction mus) auto

text \<open>
  C6. With the expansion gate disabled, a mutation that has an edge whose predicate is
  the wildcard marker gets the configuration error, no transaction context, and the
  list of network requests made is empty: the commit call is not reached.
\<close>

theorem ApplyMutations_expand_disabled:
  assumes "\<not> ExpandEdge w" and "mu \<in> set (Edges m)" and "Attr mu = Star w"
  shows "ApplyMutations w m = ([], None, Some ExpandEdgeDisabled)"
  using assms by (simp add: ApplyMutations_def rejectStar_Some)

theorem ApplyMutations_expand_disabled_witness:
  "\<not> ExpandEdge sampleWorld \<and> wildcardDelete \<in> set (Edges wildcardMutations)
     \<and> Attr wildcardDelete = Star sampleWorld
     \<and> ApplyMutations sampleWorld wildcardMutations = ([], None, Some ExpandEdgeDisabled)"
  using ApplyMutations_expand_disabled [of sampleWorld wildcardDelete wildcardMutations]
  by (simp add: sampleWorld_def wildcardDelete_def wildcardMutations_def)

section \<open>expandEdges\<close>

text \<open>
  A run of the loop over the predicates of an edge that returns no error has appended,
  for each predicate in turn, the edge narrowed to it, the bookkeeping edge, and the
  reverse edges of the predicate.
\<close>

lemma expandPreds_Inr:
  "expandPreds w m edge preds acc = Inr out \<Longrightarrow>
     out = acc @ concat (map (\<lambda>pred. [edge\<lparr>Attr := pred\<rparr>, predicateEdge edge pred]
                                      @ fanOut w m edge pred) preds)"
proof (induction preds arbitrary: acc)
  case Nil
  then show ?case by simp
next
  case (Cons pred preds)
  show ?case
  proof (cases "IsReversed w pred")
    case False
    with Cons.prems have
      "expandPreds w m edge preds (acc @ [edge\<lparr>Attr := pred\<rparr>, predicateEdge edge pred]) = Inr out"
      by (simp add: Let_def)
    from Cons.IH [OF this] False show ?thesis by (simp add: fanOut_def)
  next
    case True
    with Cons.prems obtain objs where o: "reverseObjs w m edge pred = Inr objs"
      and "expandPreds w m edge preds
             (acc @ [edge\<lparr>Attr := pred\<rparr>, predicateEdge edge pred] @ map (reverseEdge edge pred) objs)
           = Inr out"
      by (auto simp: Let_def split: sum.splits)
    from Cons.IH [OF this(2)] True o show ?thesis by (simp add: fanOut_def)
  qed
qed

lemma expandPreds_succeeds:
  "\<forall>pred\<in>set preds. IsReversed w pred \<longrightarrow> succeeds (reverseObjs w m edge pred)
     \<Longrightarrow> \<exists>out. expandPreds w m edge preds acc = Inr out"
proof (induction preds arbitrary: acc)
  case Nil
  then show ?case by simp
next
  case (Cons pred preds)
  then show ?case
    by (cases "reverseObjs w m edge pred") (auto simp: Let_def succeeds_def)
qed

lemma length_concat_fan:
  "length (concat (map (\<lambda>pred. a pred # b pred # f pred) preds))
     = 2 * length preds + length (concat (map f preds))"
  by (induction preds) auto

lemma expandPreds_length:
  assumes "expandPreds w m edge preds acc = Inr out"
  shows "length out = length acc + 2 * length preds
           + length (concat (map (fanOut w m edge) preds))"
  using expandPreds_Inr [OF assms] by (simp add: length_concat_fan)

lemma fanOut_not_reversed:
  "\<forall>pred\<in>set preds. \<not> IsReversed w pred \<Longrightarrow> concat (map (fanOut w m edge) preds) = []"
  by (induction preds) (auto simp: fanOut_def)

lemma expandLoop_Inr_set:
  assumes "expandLoop w m es acc = Inr out"
  shows "set acc \<subseteq> set out
     \<and> (\<forall>edge\<in>set es. if passedOn w edge then edge \<in> set out
          else (\<exists>preds. edgePreds w m edge = Inr preds
                 \<and> (\<forall>pred\<in>set preds. edge\<lparr>Attr := pred\<rparr> \<in> set out)))"
  using assms
proof (induction es arbitrary: acc)
  case Nil
  then show ?case by simp
next
  case (Cons edge es)
  show ?case
  proof (cases "passedOn w edge")
    case True
    with Cons.prems have "expandLoop w m es (acc @ [edge]) = Inr out"
      by (auto simp: passedOn_def split: if_splits)
    from Cons.IH [OF this] True show ?thesis by auto
  next
    case False
    with Cons.prems obtain preds acc' where
      p: "edgePreds w m edge = Inr preds"
      and x: "expandPreds w m edge preds acc = Inr acc'"
      and l: "expandLoop w m es acc' = Inr out"
      by (auto split: if_splits sum.splits)
    have "acc' = acc @ concat (map (\<lambda>pred. [edge\<lparr>Attr := pred\<rparr>, predicateEdge edge pred]
                                      @ fanOut w m edge pred) preds)"
      using x by (rule expandPreds_Inr)
    then have "set acc \<subseteq> set acc'" and "\<forall>pred\<in>set preds. edge\<lparr>Attr := pred\<rparr> \<in> set acc'"
      by auto
    with Cons.IH [OF l] p False show ?thesis by auto
  qed
qed

lemma expandLoop_length:
  assumes "expandLoop w m es acc = Inr out"
    and "\<forall>edge\<in>set es. \<not> passedOn w edge \<and> edgePreds w m edge = Inr preds"
  shows "length acc + 2 * length preds * length es \<le> length out
     \<and> ((\<forall>pred\<in>set preds. \<not> IsReversed w pred)
          \<longrightarrow> length out = length acc + 2 * length preds * length es)"
  using assms
proof (induction es arbitrary: acc)
  case Nil
  then show ?case by simp
next
  case (Cons edge es)
  from Cons.prems obtain acc' where
    x: "expandPreds w m edge preds acc = Inr acc'" and l: "expandLoop w m es acc' = Inr out"
    by (auto split: if_splits sum.splits)
  have len: "length acc' = length acc + 2 * length preds
               + length (concat (map (fanOut w m edge) preds))"
    using x by (rule expandPreds_length)
  have ih: "length acc' + 2 * length preds * length es \<le> length out
     \<and> ((\<forall>pred\<in>set preds. \<not> IsReversed w pred)
          \<longrightarrow> length out = length acc' + 2 * length preds * length es)"
    using Cons.IH [OF l] Cons.prems(2) by simp
  have "length acc + 2 * length preds * length (edge # es) \<le> length out"
    using len ih by simp
  moreover have "length out = length acc + 2 * length preds * length (edge # es)"
    if "\<forall>pred\<in>set preds. \<not> IsReversed w pred"
    using len ih that fanOut_not_reversed [OF that, of m edge] by simp
  ultimately show ?case by blast
qed

text \<open>
  Where the edges of the output come from: an edge that does not carry the reserved
  attribute is an edge of the input with at most its predicate replaced.
\<close>

lemma Attr_reverseEdge: "Attr (reverseEdge edge pred obj) = ''_predicate_''"
  by (simp add: reverseEdge_def)

lemma fanOut_cases:
  "\<exists>objs. fanOut w m edge pred = map (reverseEdge edge pred) objs"
proof (cases "reverseObjs w m edge pred")
  case (Inl err)
  then have "fanOut w m edge pred = map (reverseEdge edge pred) []"
    by (simp add: fanOut_def)
  then show ?thesis ..
next
  case (Inr objs)
  then have "fanOut w m edge pred
      = map (reverseEdge edge pred) (if IsReversed w pred then objs else [])"
    by (simp add: fanOut_def)
  then show ?thesis ..
qed

lemma fanOut_attr:
  assumes "e' \<in> set (fanOut w m edge pred)"
  shows "Attr e' = ''_predicate_''"
proof -
  from fanOut_cases [of w m edge pred] assms obtain objs where
    "e' \<in> set (map (reverseEdge edge pred) objs)"
    by auto
  then obtain obj where "e' = reverseEdge edge pred obj" by auto
  then show ?thesis by (simp add: Attr_reverseEdge)
qed

lemma chunk_origin:
  assumes "e' \<in> set ([edge\<lparr>Attr := pred\<rparr>, predicateEdge edge pred] @ fanOut w m edge pred)"
  shows "Attr e' = ''_predicate_'' \<or> e' = edge\<lparr>Attr := Attr e'\<rparr>"
proof -
  from assms consider "e' = edge\<lparr>Attr := pred\<rparr>" | "e' = predicateEdge edge pred"
    | "e' \<in> set (fanOut w m edge pred)"
    by auto
  then show ?thesis
  proof cases
    case 1
    then show ?thesis by simp
  next
    case 2
    then show ?thesis by (simp add: predicateEdge_def)
  next
    case 3
    then show ?thesis by (simp add: fanOut_attr)
  qed
qed

lemma expandLoop_origin:
  assumes "expandLoop w m es acc = Inr out"
  shows "\<forall>e'\<in>set out. e' \<in> set acc \<or> Attr e' = ''_predicate_''
           \<or> (\<exists>edge\<in>set es. e' = edge\<lparr>Attr := Attr e'\<rparr>)"
  using assms
proof (induction es arbitrary: acc)
  case Nil
  then show ?case by simp
next
  case (Cons edge es)
  show ?case
  proof (cases "passedOn w edge")
    case True
    with Cons.prems have "expandLoop w m es (acc @ [edge]) = Inr out"
      by (auto simp: passedOn_def split: if_splits)
    from Cons.IH [OF this] show ?thesis by fastforce
  next
    case False
    with Cons.prems obtain preds acc' where
      x: "expandPreds w m edge preds acc = Inr acc'"
      and l: "expandLoop w m es acc' = Inr out"
      by (auto split: if_splits sum.splits)
    have "acc' = acc @ concat (map (\<lambda>pred. [edge\<lparr>Attr := pred\<rparr>, predicateEdge edge pred]
                                      @ fanOut w m edge pred) preds)"
      using x by (rule expandPreds_Inr)
    then have "\<forall>e'\<in>set acc'. e' \<in> set acc
        \<or> (\<exists>pred. e' \<in> set ([edge\<lparr>Attr := pred\<rparr>, predicateEdge edge pred]
                                 @ fanOut w m edge pred))"
      by auto
    then have a: "\<forall>e'\<in>set acc'. e' \<in> set acc \<or> Attr e' = ''_predicate_''
                    \<or> e' = edge\<lparr>Attr := Attr e'\<rparr>"
      using chunk_origin by blast
    show ?thesis
    proof
      fix e'
      assume "e' \<in> set out"
      with Cons.IH [OF l] have "e' \<in> set acc' \<or> Attr e' = ''_predicate_''
          \<or> (\<exists>edge\<in>set es. e' = edge\<lparr>Attr := Attr e'\<rparr>)"
        by blast
      with a show "e' \<in> set acc \<or> Attr e' = ''_predicate_''
          \<or> (\<exists>edge\<in>set (edge # es). e' = edge\<lparr>Attr := Attr e'\<rparr>)"
        by auto
    qed
  qed
qed

subsection \<open>The narrowed edge\<close>

text \<open>
  C10. When expandEdges returns no error, every edge of the mutation that is not passed
  on unexpanded has a list of predicates, and for each of them the output holds the
  edge with the predicate put in place of its own: the entity, the operation, the value,
  the target identifier and the facets are those of the input edge. And every edge of
  the output other than the bookkeeping edges on the reserved attribute is an input
  edge in which nothing but the predicate has been replaced.
\<close>

theorem expandEdges_narrowed_copy:
  assumes "expandEdges w m = Inr out" and "edge \<in> set (Edges m)" and "\<not> passedOn w edge"
  shows "(\<exists>preds. edgePreds w m edge = Inr preds
           \<and> (\<forall>pred\<in>set preds. \<exists>e'\<in>set out. e' = edge\<lparr>Attr := pred\<rparr>
                 \<and> Attr e' = pred \<and> Entity e' = Entity edge \<and> Op e' = Op edge
                 \<and> Value e' = Value edge \<and> ValueId e' = ValueId edge
                 \<and> DirectedEdge.Facets e' = DirectedEdge.Facets edge))
     \<and> (\<forall>e'\<in>set out. Attr e' = ''_predicate_''
           \<or> (\<exists>edge\<in>set (Edges m). e' = edge\<lparr>Attr := Attr e'\<rparr>))"
proof -
  from expandLoop_Inr_set [OF assms(1) [unfolded expandEdges_def]] assms(2,3)
  obtain preds where p: "edgePreds w m edge = Inr preds"
    and a: "\<forall>pred\<in>set preds. edge\<lparr>Attr := pred\<rparr> \<in> set out"
    by (auto split: if_splits)
  have "\<exists>e'\<in>set out. e' = edge\<lparr>Attr := pred\<rparr>
          \<and> Attr e' = pred \<and> Entity e' = Entity edge \<and> Op e' = Op edge
          \<and> Value e' = Value edge \<and> ValueId e' = ValueId edge
          \<and> DirectedEdge.Facets e' = DirectedEdge.Facets edge"
    if "pred \<in> set preds" for pred
    using a that by (intro bexI [of _ "edge\<lparr>Attr := pred\<rparr>"]) simp_all
  moreover have "\<forall>e'\<in>set out. Attr e' = ''_predicate_''
           \<or> (\<exists>edge\<in>set (Edges m). e' = edge\<lparr>Attr := Attr e'\<rparr>)"
    using expandLoop_origin [OF assms(1) [unfolded expandEdges_def]] by simp
  ultimately show ?thesis using p by blast
qed

theorem expandEdges_narrowed_copy_witness:
  "expandEdges sampleWorld wildcardMutations
      = Inr [wildcardDelete\<lparr>Attr := ''p1''\<rparr>, predicateEdge wildcardDelete ''p1'',
             reverseEdge wildcardDelete ''p1'' 5, reverseEdge wildcardDelete ''p1'' 6,
             wildcardDelete\<lparr>Attr := ''p2''\<rparr>, predicateEdge wildcardDelete ''p2'']
     \<and> wildcardDelete \<in> set (Edges wildcardMutations)
     \<and> \<not> passedOn sampleWorld wildcardDelete
     \<and> edgePreds sampleWorld wildcardMutations wildcardDelete = Inr [''p1'', ''p2'']
     \<and> (\<exists>preds. edgePreds sampleWorld wildcardMutations wildcardDelete = Inr preds
           \<and> (\<forall>pred\<in>set preds.
                \<exists>e'\<in>set [wildcardDelete\<lparr>Attr := ''p1''\<rparr>, predicateEdge wildcardDelete ''p1'',
                           reverseEdge wildcardDelete ''p1'' 5, reverseEdge wildcardDelete ''p1'' 6,
                           wildcardDelete\<lparr>Attr := ''p2''\<rparr>, predicateEdge wildcardDelete ''p2''].
                  e' = wildcardDelete\<lparr>Attr := pred\<rparr>
                  \<and> Attr e' = pred \<and> Entity e' = Entity wildcardDelete \<and> Op e' = Op wildcardDelete
                  \<and> Value e' = Value wildcardDelete \<and> ValueId e' = ValueId wildcardDelete
                  \<and> DirectedEdge.Facets e' = DirectedEdge.Facets wildcardDelete))"
proof -
  have a: "expandEdges sampleWorld wildcardMutations
      = Inr [wildcardDelete\<lparr>Attr := ''p1''\<rparr>, predicateEdge wildcardDelete ''p1'',
             reverseEdge wildcardDelete ''p1'' 5, reverseEdge wildcardDelete ''p1'' 6,
             wildcardDelete\<lparr>Attr := ''p2''\<rparr>, predicateEdge wildcardDelete ''p2'']"
    by (simp add: expandEdges_def edgePreds_def passedOn_def reverseObjs_def Let_def
        sampleWorld_def wildcardMutations_def wildcardDelete_def)
  have b: "wildcardDelete \<in> set (Edges wildcardMutations)"
    by (simp add: wildcardMutations_def)
  have c: "\<not> passedOn sampleWorld wildcardDelete"
    by (simp add: passedOn_def wildcardDelete_def)
  have d: "edgePreds sampleWorld wildcardMutations wildcardDelete = Inr [''p1'', ''p2'']"
    by (simp add: edgePreds_def sampleWorld_def wildcardMutations_def wildcardDelete_def)
  show ?thesis
    using a b c d expandEdges_narrowed_copy [OF a b c] by blast
qed

subsection \<open>The fan-out of one wildcard delete\<close>

text \<open>
  C4, as the claim states it, fails for a wildcard-predicate delete edge whose value is
  not the wildcard marker: storage holds the targets 5 and 6 for p1, and the output has
  a single reverse edge, on the edge's own target 9.
\<close>

theorem expandEdges_reverse_edge_of_object:
  "Attr objectDelete = Star sampleWorld \<and> Op objectDelete = DirectedEdge_DEL
     \<and> Uids sampleWorld ''p1'' (Entity objectDelete) 7 = Inr [5, 6]
     \<and> expandEdges sampleWorld \<lparr>Edges = [objectDelete], StartTs = 7\<rparr>
         = Inr [objectDelete\<lparr>Attr := ''p1''\<rparr>, predicateEdge objectDelete ''p1'',
                reverseEdge objectDelete ''p1'' 9,
                objectDelete\<lparr>Attr := ''p2''\<rparr>, predicateEdge objectDelete ''p2'']"
  by (simp add: expandEdges_def edgePreds_def passedOn_def reverseObjs_def Let_def
      sampleWorld_def objectDelete_def)

text \<open>
  C4, amended. One delete edge with the wildcard predicate that is not of the shape
  passed on, against an entity whose live predicates are read as p1 and then p2, with p1
  reverse-indexed and p2 not, expands to exactly: the edge narrowed to p1, the
  bookkeeping edge of p1, the reverse edges of p1, the edge narrowed to p2, the
  bookkeeping edge of p2, and no reverse edge for p2. The reverse edges of p1 are one
  for each target read from storage when the value of the edge is the wildcard marker
  and the read succeeds, and the single one on the edge's own target identifier
  otherwise.
\<close>

theorem expandEdges_fan_out:
  assumes "Edges m = [edge]" and "Attr edge = Star w" and "Op edge = DirectedEdge_DEL"
    and "\<not> passedOn w edge"
    and "getNodePredicates w [Entity edge] (StartTs m) = Inr [vl]"
    and "livePreds vl = [p1, p2]"
    and "IsReversed w p1" and "\<not> IsReversed w p2"
    and "Value edge = Star w \<longrightarrow> Uids w p1 (Entity edge) (StartTs m) = Inr targets"
  shows "expandEdges w m
      = Inr ([edge\<lparr>Attr := p1\<rparr>, predicateEdge edge p1]
             @ map (reverseEdge edge p1) (if Value edge = Star w then targets else [ValueId edge])
             @ [edge\<lparr>Attr := p2\<rparr>, predicateEdge edge p2])"
proof -
  have p: "edgePreds w m edge = Inr [p1, p2]"
    using assms(2,5,6) by (simp add: edgePreds_def livePreds_def)
  have o: "reverseObjs w m edge p1
      = Inr (if Value edge = Star w then targets else [ValueId edge])"
    using assms(9) by (simp add: reverseObjs_def)
  show ?thesis
    using assms(1,3,4,7,8) p o by (simp add: expandEdges_def Let_def)
qed

theorem expandEdges_fan_out_witness:
  "Edges wildcardMutations = [wildcardDelete] \<and> Attr wildcardDelete = Star sampleWorld
     \<and> Op wildcardDelete = DirectedEdge_DEL \<and> \<not> passedOn sampleWorld wildcardDelete
     \<and> getNodePredicates sampleWorld [Entity wildcardDelete] (StartTs wildcardMutations)
         = Inr [\<lparr>Values = [\<lparr>Val = ''p1''\<rparr>, \<lparr>Val = ''p2''\<rparr>]\<rparr>]
     \<and> livePreds \<lparr>Values = [\<lparr>Val = ''p1''\<rparr>, \<lparr>Val = ''p2''\<rparr>]\<rparr> = [''p1'', ''p2'']
     \<and> IsReversed sampleWorld ''p1'' \<and> \<not> IsReversed sampleWorld ''p2''
     \<and> Value wildcardDelete = Star sampleWorld
     \<and> Uids sampleWorld ''p1'' (Entity wildcardDelete) (StartTs wildcardMutations) = Inr [5, 6]
     \<and> expandEdges sampleWorld wildcardMutations
         = Inr [wildcardDelete\<lparr>Attr := ''p1''\<rparr>, predicateEdge wildcardDelete ''p1'',
                reverseEdge wildcardDelete ''p1'' 5, reverseEdge wildcardDelete ''p1'' 6,
                wildcardDelete\<lparr>Attr := ''p2''\<rparr>, predicateEdge wildcardDelete ''p2'']"
proof -
  let ?vl = "\<lparr>Values = [\<lparr>Val = ''p1''\<rparr>, \<lparr>Val = ''p2''\<rparr>]\<rparr>"
  have a: "Edges wildcardMutations = [wildcardDelete]"
    by (simp add: wildcardMutations_def)
  have b: "Attr wildcardDelete = Star sampleWorld" "Op wildcardDelete = DirectedEdge_DEL"
    "\<not> passedOn sampleWorld wildcardDelete" "Value wildcardDelete = Star sampleWorld"
    by (simp_all add: passedOn_def sampleWorld_def wildcardDelete_def)
  have c: "getNodePredicates sampleWorld [Entity wildcardDelete] (StartTs wildcardMutations)
      = Inr [?vl]"
    by (simp add: sampleWorld_def)
  have l: "livePreds ?vl = [''p1'', ''p2'']"
    by (simp add: livePreds_def)
  have r: "IsReversed sampleWorld ''p1''" "\<not> IsReversed sampleWorld ''p2''"
    by (simp_all add: sampleWorld_def)
  have u: "Uids sampleWorld ''p1'' (Entity wildcardDelete) (StartTs wildcardMutations) = Inr [5, 6]"
    by (simp add: sampleWorld_def)
  have u': "Value wildcardDelete = Star sampleWorld
      \<longrightarrow> Uids sampleWorld ''p1'' (Entity wildcardDelete) (StartTs wildcardMutations) = Inr [5, 6]"
    using u by simp
  have "expandEdges sampleWorld wildcardMutations
         = Inr [wildcardDelete\<lparr>Attr := ''p1''\<rparr>, predicateEdge wildcardDelete ''p1'',
                reverseEdge wildcardDelete ''p1'' 5, reverseEdge wildcardDelete ''p1'' 6,
                wildcardDelete\<lparr>Attr := ''p2''\<rparr>, predicateEdge wildcardDelete ''p2'']"
    using expandEdges_fan_out [OF a b(1,2,3) c l r u'] b(4) by simp
  then show ?thesis using a b c l r u by blast
qed

subsection \<open>The number of edges\<close>

text \<open>
  C5, as the claim states it, fails: a wildcard delete against an entity without live
  predicates expands to no edge at all, and an edge of the shape passed on comes out as
  itself.
\<close>

theorem expandEdges_can_shrink:
  "length (Edges wildcardMutations) = 1
     \<and> expandEdges bareWorld wildcardMutations = Inr []
     \<and> expandEdges sampleWorld \<lparr>Edges = [passedOnDelete], StartTs = 7\<rparr> = Inr [passedOnDelete]"
  by (simp add: expandEdges_def edgePreds_def passedOn_def bareWorld_def sampleWorld_def
      wildcardMutations_def wildcardDelete_def passedOnDelete_def)

text \<open>
  C5, amended. When expandEdges returns no error on N edges with the wildcard predicate,
  none of the shape passed on, against one entity with K live predicates, the output
  has at least 2 K N edges, and exactly that many when none of the predicates is
  reverse-indexed. So for N at least 1 it has never fewer than K edges, and for N and K
  at least 1 it has more edges than the input.
\<close>

theorem expandEdges_count:
  assumes "expandEdges w m = Inr out"
    and "\<forall>edge\<in>set (Edges m). Attr edge = Star w \<and> Entity edge = ent \<and> \<not> passedOn w edge"
    and "getNodePredicates w [ent] (StartTs m) = Inr [vl]"
  shows "2 * length (livePreds vl) * length (Edges m) \<le> length out
     \<and> ((\<forall>pred\<in>set (livePreds vl). \<not> IsReversed w pred)
          \<longrightarrow> length out = 2 * length (livePreds vl) * length (Edges m))
     \<and> (0 < length (Edges m) \<longrightarrow> length (livePreds vl) \<le> length out)
     \<and> (0 < length (Edges m) \<and> 0 < length (livePreds vl) \<longrightarrow> length (Edges m) < length out)"
proof -
  let ?K = "length (livePreds vl)" and ?N = "length (Edges m)"
  have "\<forall>edge\<in>set (Edges m). \<not> passedOn w edge \<and> edgePreds w m edge = Inr (livePreds vl)"
    using assms(2,3) by (auto simp: edgePreds_def livePreds_def)
  from expandLoop_length [OF assms(1) [unfolded expandEdges_def] this]
  have le: "2 * ?K * ?N \<le> length out"
    and eq: "(\<forall>pred\<in>set (livePreds vl). \<not> IsReversed w pred) \<longrightarrow> length out = 2 * ?K * ?N"
    by simp_all
  have k: "0 < ?N \<longrightarrow> ?K \<le> length out"
  proof
    assume "0 < ?N"
    then have "?K \<le> 2 * ?K * ?N" by (cases ?N) simp_all
    then show "?K \<le> length out" using le by (rule order_trans)
  qed
  have n: "0 < ?N \<and> 0 < ?K \<longrightarrow> ?N < length out"
  proof
    assume "0 < ?N \<and> 0 < ?K"
    then have "?N < 2 * ?K * ?N" by (cases ?K) simp_all
    then show "?N < length out" using le by (rule less_le_trans)
  qed
  show ?thesis using le eq k n by blast
qed

theorem expandEdges_count_witness:
  "expandEdges plainWorld wildcardMutations
      = Inr [wildcardDelete\<lparr>Attr := ''p1''\<rparr>, predicateEdge wildcardDelete ''p1'',
             wildcardDelete\<lparr>Attr := ''p2''\<rparr>, predicateEdge wildcardDelete ''p2'']
     \<and> Edges wildcardMutations = [wildcardDelete]
     \<and> Attr wildcardDelete = Star plainWorld \<and> Entity wildcardDelete = 1
     \<and> \<not> passedOn plainWorld wildcardDelete
     \<and> getNodePredicates plainWorld [1] (StartTs wildcardMutations)
         = Inr [\<lparr>Values = [\<lparr>Val = ''p1''\<rparr>, \<lparr>Val = ''p2''\<rparr>]\<rparr>]
     \<and> livePreds \<lparr>Values = [\<lparr>Val = ''p1''\<rparr>, \<lparr>Val = ''p2''\<rparr>]\<rparr> = [''p1'', ''p2'']
     \<and> \<not> IsReversed plainWorld ''p1'' \<and> \<not> IsReversed plainWorld ''p2''
     \<and> length [wildcardDelete\<lparr>Attr := ''p1''\<rparr>, predicateEdge wildcardDelete ''p1'',
                wildcardDelete\<lparr>Attr := ''p2''\<rparr>, predicateEdge wildcardDelete ''p2'']
         = 2 * length (livePreds \<lparr>Values = [\<lparr>Val = ''p1''\<rparr>, \<lparr>Val = ''p2''\<rparr>]\<rparr>)
             * length (Edges wildcardMutations)"
proof -
  let ?out = "[wildcardDelete\<lparr>Attr := ''p1''\<rparr>, predicateEdge wildcardDelete ''p1'',
               wildcardDelete\<lparr>Attr := ''p2''\<rparr>, predicateEdge wildcardDelete ''p2'']"
  let ?vl = "\<lparr>Values = [\<lparr>Val = ''p1''\<rparr>, \<lparr>Val = ''p2''\<rparr>]\<rparr>"
  have a: "expandEdges plainWorld wildcardMutations = Inr ?out"
    by (simp add: expandEdges_def edgePreds_def passedOn_def Let_def
        plainWorld_def sampleWorld_def wildcardMutations_def wildcardDelete_def)
  have e: "Edges wildcardMutations = [wildcardDelete]"
    by (simp add: wildcardMutations_def)
  have b: "Attr wildcardDelete = Star plainWorld" "Entity wildcardDelete = 1"
    "\<not> passedOn plainWorld wildcardDelete"
    by (simp_all add: passedOn_def plainWorld_def sampleWorld_def wildcardDelete_def)
  have c: "getNodePredicates plainWorld [1] (StartTs wildcardMutations) = Inr [?vl]"
    by (simp add: plainWorld_def sampleWorld_def)
  have l: "livePreds ?vl = [''p1'', ''p2'']"
    by (simp add: livePreds_def)
  have r: "\<not> IsReversed plainWorld ''p1''" "\<not> IsReversed plainWorld ''p2''"
    by (simp_all add: plainWorld_def sampleWorld_def)
  have all: "\<forall>edge\<in>set (Edges wildcardMutations).
      Attr edge = Star plainWorld \<and> Entity edge = 1 \<and> \<not> passedOn plainWorld edge"
    using b e by simp
  have "length ?out = 2 * length (livePreds ?vl) * length (Edges wildcardMutations)"
    using expandEdges_count [OF a all c] r l by simp
  then show ?thesis using a e b c l r by blast
qed

section \<open>AssignUids without blank-node labels\<close>

lemma scanRef_no_label:
  "\<not> HasPrefix ref ''_:'' \<Longrightarrow> fst (scanRef w ref newUids) = newUids"
  by (simp add: scanRef_def split: sum.splits)

lemma scanNQuads_no_label:
  "\<forall>nq\<in>set nquads. \<not> HasPrefix (Subject nq) ''_:'' \<and> \<not> HasPrefix (ObjectId nq) ''_:''
     \<Longrightarrow> fst (scanNQuads w nquads newUids) = newUids"
proof (induction nquads arbitrary: newUids)
  case Nil
  then show ?case by simp
next
  case (Cons nq nquads)
  have s: "fst (scanRef w (Subject nq) newUids) = newUids"
    and ob: "fst (scanRef w (ObjectId nq) newUids) = newUids"
    using Cons.prems by (simp_all add: scanRef_no_label)
  show ?case
    using Cons s ob
    by (cases "scanRef w (Subject nq) newUids"; cases "scanRef w (ObjectId nq) newUids")
       (auto split: option.splits)
qed

text \<open>
  C7. When no subject and no object reference of the statement list starts with the
  blank-node marker, AssignUids makes no network request and the map it returns is
  empty, whether the scan ends with a validation error or not; the error is the one of
  the scan.
\<close>

theorem AssignUids_no_labels:
  assumes "\<forall>nq\<in>set nquads. \<not> HasPrefix (Subject nq) ''_:'' \<and> \<not> HasPrefix (ObjectId nq) ''_:''"
  shows "AssignUids w order nquads = ([], [], snd (scanNQuads w nquads []))"
proof -
  have "fst (scanNQuads w nquads []) = []"
    using assms by (rule scanNQuads_no_label)
  then show ?thesis
    by (cases "scanNQuads w nquads []") (auto simp: AssignUids_def split: option.splits)
qed

theorem AssignUids_no_labels_witness:
  "\<not> HasPrefix (Subject knownNQuad) ''_:'' \<and> \<not> HasPrefix (ObjectId knownNQuad) ''_:''
     \<and> AssignUids sampleWorld [] [knownNQuad] = ([], [], None)"
  using AssignUids_no_labels [of "[knownNQuad]" sampleWorld "[]"]
  by (simp add: sampleWorld_def knownNQuad_def HasPrefix_def scanRef_def verifyUid_def)

section \<open>AssignUids with blank-node labels\<close>

text \<open>
  Whatever the choices, the order of the range loop is a rearrangement of the keys. The
  scan keeps the keys of the map distinct.
\<close>

lemma mset_rangeOrder: "mset (rangeOrder cs ks) = mset ks"
proof (induction cs arbitrary: ks)
  case Nil
  then show ?case by simp
next
  case (Cons c cs)
  show ?case
  proof (cases "ks = []")
    case True
    then show ?thesis by simp
  next
    case False
    let ?i = "c mod length ks"
    have i: "?i < length ks" using False by simp
    have "mset ks = mset (take ?i ks @ ks ! ?i # drop (Suc ?i) ks)"
      using id_take_nth_drop [OF i] by simp
    then show ?thesis using False Cons.IH by (simp add: Let_def)
  qed
qed

lemma scanRef_distinct:
  "distinct (map fst newUids) \<Longrightarrow> distinct (map fst (fst (scanRef w ref newUids)))"
  by (simp add: scanRef_def Let_def distinct_update split: sum.splits)

lemma scanNQuads_distinct:
  "distinct (map fst newUids) \<Longrightarrow> distinct (map fst (fst (scanNQuads w nquads newUids)))"
proof (induction nquads arbitrary: newUids)
  case Nil
  then show ?case by simp
next
  case (Cons nq nquads)
  obtain n1 r1 where s: "scanRef w (Subject nq) newUids = (n1, r1)"
    by (cases "scanRef w (Subject nq) newUids")
  obtain n2 r2 where ob: "scanRef w (ObjectId nq) n1 = (n2, r2)"
    by (cases "scanRef w (ObjectId nq) n1")
  have d1: "distinct (map fst n1)"
    using scanRef_distinct [OF Cons.prems, of w "Subject nq"] s by simp
  have d2: "distinct (map fst n2)"
    using scanRef_distinct [OF d1, of w "ObjectId nq"] ob by simp
  show ?case
    using Cons.IH [OF Cons.prems] Cons.IH [OF d2] s ob d1 d2
    by (auto split: option.splits)
qed

text \<open>
  The loop that assigns: when the cursor starts above 0 and the range has room for all
  the keys, no assertion fails, key number \<open>i\<close> of the order gets the start plus
  \<open>i\<close>, and the other entries and the keys of the map stay as they are.
\<close>

lemma unat_u64_bound: "unat (x :: u64) < 2 ^ 64"
  using unsigned_less [of x, where ?'a = nat] by simp

lemma word_succ_no_wrap:
  fixes cur :: u64
  assumes "unat cur + 1 < 2 ^ 64"
  shows "unat (cur + 1) = unat cur + 1" and "cur + 1 \<noteq> 0"
proof -
  show u: "unat (cur + 1) = unat cur + 1"
    using assms by (simp add: unat_word_ariths)
  then show "cur + 1 \<noteq> 0"
    by (metis Suc_eq_plus1 nat.distinct(1) unat_0)
qed

lemma assignLoop_ok:
  assumes "distinct ks"
    and "ks = [] \<or> (curId \<noteq> 0 \<and> unat curId + length ks \<le> unat (EndId res) + 1)"
  shows "\<exists>newUids'. assignLoop res ks curId newUids = (newUids', None)
           \<and> (\<forall>i<length ks. map_of newUids' (ks ! i) = Some (curId + of_nat i))
           \<and> (\<forall>k. k \<notin> set ks \<longrightarrow> map_of newUids' k = map_of newUids k)
           \<and> (set ks \<subseteq> fst ` set newUids \<longrightarrow> map fst newUids' = map fst newUids)"
  using assms
proof (induction ks arbitrary: curId newUids)
  case Nil
  then show ?case by simp
next
  case (Cons k ks)
  from Cons.prems(2) have c0: "curId \<noteq> 0"
    and bound: "unat curId + Suc (length ks) \<le> unat (EndId res) + 1"
    by simp_all
  have le: "curId \<le> EndId res"
    using bound by (simp add: word_le_nat_alt)
  have step: "assignLoop res (k # ks) curId newUids
      = assignLoop res ks (curId + 1) (AList.update k curId newUids)"
    using c0 le by simp
  have pre: "ks = [] \<or> (curId + 1 \<noteq> 0 \<and> unat (curId + 1) + length ks \<le> unat (EndId res) + 1)"
  proof (cases "ks = []")
    case True
    then show ?thesis by simp
  next
    case False
    then have "0 < length ks" by simp
    moreover have "unat (EndId res) < 2 ^ 64" by (rule unat_u64_bound)
    ultimately have "unat curId + 1 < 2 ^ 64" using bound by linarith
    from word_succ_no_wrap [OF this] bound show ?thesis by simp
  qed
  from Cons.prems(1) have dk: "distinct ks" and kn: "k \<notin> set ks" by simp_all
  from Cons.IH [OF dk pre, of "AList.update k curId newUids"] obtain newUids' where
    r: "assignLoop res ks (curId + 1) (AList.update k curId newUids) = (newUids', None)"
    and vals: "\<forall>i<length ks. map_of newUids' (ks ! i) = Some (curId + 1 + of_nat i)"
    and frame: "\<forall>k'. k' \<notin> set ks \<longrightarrow> map_of newUids' k' = map_of (AList.update k curId newUids) k'"
    and keys: "set ks \<subseteq> fst ` set (AList.update k curId newUids)
                 \<longrightarrow> map fst newUids' = map fst (AList.update k curId newUids)"
    by blast
  have v: "map_of newUids' ((k # ks) ! i) = Some (curId + of_nat i)" if "i < length (k # ks)" for i
  proof (cases i)
    case 0
    then show ?thesis using frame kn by (simp add: update_conv')
  next
    case (Suc j)
    then show ?thesis using vals that by (simp add: add.assoc add.commute)
  qed
  have f: "map_of newUids' k' = map_of newUids k'" if "k' \<notin> set (k # ks)" for k'
    using frame that by (simp add: update_conv')
  have ky: "map fst newUids' = map fst newUids" if "set (k # ks) \<subseteq> fst ` set newUids"
  proof -
    have "k \<in> set (map fst newUids)" using that by auto
    then have "map fst (AList.update k curId newUids) = map fst newUids"
      by (simp add: update_keys)
    moreover have "set ks \<subseteq> fst ` set (AList.update k curId newUids)"
      using that by (auto simp: dom_update)
    ultimately show ?thesis using keys by simp
  qed
  show ?case unfolding step using r v f ky by blast
qed

lemma sint_count_pos:
  assumes "0 < n" and "n < 2 ^ 63"
  shows "0 < sint (of_nat n :: u64)"
proof -
  have "sint (of_nat n :: u64) = signed_take_bit 63 (int n)"
    by (simp add: signed_of_nat)
  also have "\<dots> = int n"
    using assms(2) by (intro signed_take_bit_int_eq_self) simp_all
  finally show ?thesis using assms(1) by simp
qed

lemma unat_add_of_nat:
  fixes c :: u64
  assumes "unat c + i < 2 ^ 64"
  shows "unat (c + of_nat i) = unat c + i"
proof -
  have "unat (of_nat i :: u64) = i"
    using assms by (simp add: unat_of_nat)
  then show ?thesis
    using assms unat_add_lem [of c "of_nat i"] by simp
qed

text \<open>
  C8. Let the scan of the statements end without error with fewer than \<open>2 ^ 63\<close>
  labels (the count of a Go map fits the type \<open>int\<close>), and let the lease authority
  answer the request for that many identifiers with a range whose start is at least 1
  and which holds, from start to end inclusive, at least as many identifiers as there
  are labels. Then, for every order in which the map is ranged over, AssignUids returns
  without error, so no assertion on the cursor has failed; the keys of the map are the
  labels; every label has an identifier between the start and the end of the range,
  below the start plus the number of labels; and different labels have different
  identifiers.
\<close>

theorem AssignUids_distinct_in_range:
  assumes scan: "scanNQuads w nquads [] = (labels, None)"
    and count: "length labels < 2 ^ 63"
    and reply: "AssignUidsOverNetwork w (of_nat (length labels)) = Inr res"
    and start: "1 \<le> StartId res"
    and enough: "unat (StartId res) + length labels \<le> unat (EndId res) + 1"
  shows "\<exists>calls newUids. AssignUids w order nquads = (calls, newUids, None)
           \<and> map fst newUids = map fst labels
           \<and> (\<forall>k\<in>set (map fst labels). \<exists>v. map_of newUids k = Some v
                 \<and> StartId res \<le> v \<and> v \<le> EndId res
                 \<and> unat v < unat (StartId res) + length labels)
           \<and> inj_on (map_of newUids) (set (map fst labels))"
proof (cases "labels = []")
  case True
  then have "AssignUids w order nquads = ([], [], None)"
    using scan by (simp add: AssignUids_def)
  then show ?thesis using True by simp
next
  case False
  let ?n = "length labels"
  let ?ks = "rangeOrder order (map fst labels)"
  have pos: "0 < sint (of_nat ?n :: u64)"
    using False count by (intro sint_count_pos) simp_all
  have run: "AssignUids w order nquads
      = ([AssignUidsOverNetwork_call (of_nat ?n)], assignLoop res ?ks (StartId res) labels)"
    using scan pos reply by (simp add: AssignUids_def Let_def)
  have "distinct (map fst (fst (scanNQuads w nquads [])))"
    by (rule scanNQuads_distinct) simp
  then have dl: "distinct (map fst labels)" using scan by simp
  have ms: "mset ?ks = mset (map fst labels)" by (rule mset_rangeOrder)
  have dk: "distinct ?ks" using dl ms by (metis mset_eq_imp_distinct_iff)
  have sk: "set ?ks = set (map fst labels)" using ms by (rule mset_eq_setD)
  have lk: "length ?ks = ?n" using ms by (metis length_map mset_eq_length)
  have s0: "StartId res \<noteq> 0" using start by auto
  have pre: "?ks = [] \<or> (StartId res \<noteq> 0 \<and> unat (StartId res) + length ?ks \<le> unat (EndId res) + 1)"
    using s0 enough lk by simp
  from assignLoop_ok [OF dk pre, of labels] obtain newUids where
    r: "assignLoop res ?ks (StartId res) labels = (newUids, None)"
    and vals: "\<forall>i<length ?ks. map_of newUids (?ks ! i) = Some (StartId res + of_nat i)"
    and keys: "set ?ks \<subseteq> fst ` set labels \<longrightarrow> map fst newUids = map fst labels"
    by blast
  have k: "map fst newUids = map fst labels" using keys sk by simp
  have top: "unat (EndId res) < 2 ^ 64"
    by (rule unat_u64_bound)
  have u: "unat (StartId res + of_nat i) = unat (StartId res) + i" if "i < ?n" for i
    using that enough top by (intro unat_add_of_nat) linarith
  have rng: "\<exists>v. map_of newUids k = Some v \<and> StartId res \<le> v \<and> v \<le> EndId res
               \<and> unat v < unat (StartId res) + ?n"
    if "k \<in> set (map fst labels)" for k
  proof -
    from that sk obtain i where i: "i < length ?ks" "?ks ! i = k"
      by (metis in_set_conv_nth)
    then have "map_of newUids k = Some (StartId res + of_nat i)" using vals by auto
    moreover have "unat (StartId res + of_nat i) = unat (StartId res) + i"
      using i(1) lk u by simp
    ultimately show ?thesis
      using i(1) lk enough by (simp add: word_le_nat_alt)
  qed
  have inj: "inj_on (map_of newUids) (set (map fst labels))"
  proof (rule inj_onI)
    fix a b
    assume a: "a \<in> set (map fst labels)" and b: "b \<in> set (map fst labels)"
      and eq: "map_of newUids a = map_of newUids b"
    from a sk obtain i where i: "i < length ?ks" "?ks ! i = a" by (metis in_set_conv_nth)
    from b sk obtain j where j: "j < length ?ks" "?ks ! j = b" by (metis in_set_conv_nth)
    have "StartId res + of_nat i = StartId res + of_nat j"
      using vals i j eq by (metis option.inject)
    then have "unat (StartId res + of_nat i) = unat (StartId res + of_nat j)" by simp
    then have "i = j" using u i(1) j(1) lk by simp
    then show "a = b" using i(2) j(2) by simp
  qed
  show ?thesis
    using run r k rng inj by auto
qed

theorem AssignUids_distinct_in_range_witness:
  "scanNQuads sampleWorld [labelNQuad] [] = ([(''_:a'', 0), (''_:b'', 0)], None)
     \<and> length [(''_:a'', 0 :: u64), (''_:b'', 0)] < 2 ^ 63
     \<and> AssignUidsOverNetwork sampleWorld (of_nat (length [(''_:a'', 0 :: u64), (''_:b'', 0)]))
         = Inr \<lparr>StartId = 1000, EndId = 1001\<rparr>
     \<and> (1 :: u64) \<le> 1000
     \<and> unat (1000 :: u64) + length [(''_:a'', 0 :: u64), (''_:b'', 0)] \<le> unat (1001 :: u64) + 1
     \<and> AssignUids sampleWorld [1] [labelNQuad]
         = ([AssignUidsOverNetwork_call 2], [(''_:a'', 1001), (''_:b'', 1000)], None)
     \<and> (\<exists>calls newUids. AssignUids sampleWorld [1] [labelNQuad] = (calls, newUids, None)
           \<and> map fst newUids = [''_:a'', ''_:b'']
           \<and> inj_on (map_of newUids) {''_:a'', ''_:b''})"
proof -
  let ?labels = "[(''_:a'', 0 :: u64), (''_:b'', 0)]"
  let ?res = "\<lparr>StartId = 1000 :: u64, EndId = 1001\<rparr>"
  have a: "scanNQuads sampleWorld [labelNQuad] [] = (?labels, None)"
    by (simp add: scanRef_def HasPrefix_def verifyUid_def sampleWorld_def labelNQuad_def)
  have b: "length ?labels < 2 ^ 63" by simp
  have c: "AssignUidsOverNetwork sampleWorld (of_nat (length ?labels)) = Inr ?res"
    by (simp add: sampleWorld_def)
  have d: "1 \<le> StartId ?res" by simp
  have e: "unat (StartId ?res) + length ?labels \<le> unat (EndId ?res) + 1" by simp
  have f: "AssignUids sampleWorld [1] [labelNQuad]
         = ([AssignUidsOverNetwork_call 2], [(''_:a'', 1001), (''_:b'', 1000)], None)"
    by (simp add: AssignUids_def scanRef_def HasPrefix_def verifyUid_def sampleWorld_def
        labelNQuad_def Let_def)
  from AssignUids_distinct_in_range [OF a b c d e, of "[1]"] obtain calls newUids where
    x: "AssignUids sampleWorld [1] [labelNQuad] = (calls, newUids, None)"
       "map fst newUids = map fst ?labels"
       "inj_on (map_of newUids) (set (map fst ?labels))"
    by blast
  have g: "\<exists>calls newUids. AssignUids sampleWorld [1] [labelNQuad] = (calls, newUids, None)
           \<and> map fst newUids = [''_:a'', ''_:b'']
           \<and> inj_on (map_of newUids) {''_:a'', ''_:b''}"
    using x by (intro exI [of _ calls] exI [of _ newUids]) simp
  show ?thesis using a b c d e f g by simp
qed

section \<open>ToInternal\<close>

text \<open>
  What a loop of ToInternal has done when it stops: it has appended the edges of the
  statements with a subject among the first \<open>j\<close> statements, all of which pass, and
  it returns no error exactly when \<open>j\<close> is the length of the list; otherwise statement
  \<open>j\<close> is the one that failed.
\<close>

lemma setLoop_shape:
  "setLoop w u nqs acc = (es, r) \<Longrightarrow>
     \<exists>j ys. j \<le> length nqs \<and> es = acc @ ys
        \<and> list_all2 (setEdge w u) (filter hasSubject (take j nqs)) ys
        \<and> (\<forall>x\<in>set (take j nqs). setPasses w u x)
        \<and> (case r of None \<Rightarrow> j = length nqs
            | Some err \<Rightarrow> j < length nqs \<and> \<not> setPasses w u (nqs ! j))"
proof (induction nqs arbitrary: acc)
  case Nil
  then show ?case by simp
next
  case (Cons nq nqs)
  show ?case
  proof (cases "setPasses w u nq")
    case False
    then have "r \<noteq> None \<and> es = acc"
      using Cons.prems
      by (auto simp: setPasses_def succeeds_def parse_def hasSubject_def split: sum.splits if_splits)
    then show ?thesis using False
      by (intro exI[of _ 0] exI[of _ "[]"]) auto
  next
    case True
    then obtain fs where fs: "SortAndValidate w (NQuad.Facets nq) = Inr fs"
      by (auto simp: setPasses_def split: sum.splits)
    have "\<exists>new. parse w u (nq\<lparr>NQuad.Facets := fs\<rparr>) DirectedEdge_SET acc = (acc @ new, None)
            \<and> list_all2 (setEdge w u) (filter hasSubject [nq]) new"
    proof (cases "hasSubject nq")
      case False
      then show ?thesis by (simp add: parse_def hasSubject_def)
    next
      case hs: True
      then obtain edge where "ToEdgeUsing w (nq\<lparr>NQuad.Facets := fs\<rparr>) u = Inr edge"
        using True fs by (auto simp: setPasses_def succeeds_def split: sum.splits)
      then show ?thesis using hs fs
        by (simp add: parse_def hasSubject_def setEdge_def)
    qed
    then obtain new where
      p: "parse w u (nq\<lparr>NQuad.Facets := fs\<rparr>) DirectedEdge_SET acc = (acc @ new, None)"
      and new: "list_all2 (setEdge w u) (filter hasSubject [nq]) new"
      by blast
    from Cons.prems fs p have "setLoop w u nqs (acc @ new) = (es, r)" by simp
    from Cons.IH[OF this] obtain j ys where
      j: "j \<le> length nqs" "es = (acc @ new) @ ys"
         "list_all2 (setEdge w u) (filter hasSubject (take j nqs)) ys"
         "\<forall>x\<in>set (take j nqs). setPasses w u x"
         "case r of None \<Rightarrow> j = length nqs | Some err \<Rightarrow> j < length nqs \<and> \<not> setPasses w u (nqs ! j)"
      by blast
    have "list_all2 (setEdge w u) (filter hasSubject [nq] @ filter hasSubject (take j nqs)) (new @ ys)"
      by (rule list_all2_appendI [OF new j(3)])
    then have "list_all2 (setEdge w u) (filter hasSubject (take (Suc j) (nq # nqs))) (new @ ys)"
      by (cases "hasSubject nq") simp_all
    then show ?thesis
      using j True
      by (intro exI[of _ "Suc j"] exI[of _ "new @ ys"]) (auto split: option.splits)
  qed
qed

lemma delLoop_shape:
  "delLoop w u nqs acc = (es, r) \<Longrightarrow>
     \<exists>k ys. k \<le> length nqs \<and> es = acc @ ys
        \<and> list_all2 (delEdge w u) (filter hasSubject (take k nqs)) ys
        \<and> (\<forall>x\<in>set (take k nqs). \<not> alterShape w x \<and> delPasses w u x)
        \<and> (case r of None \<Rightarrow> k = length nqs
            | Some err \<Rightarrow> k < length nqs
                \<and> (if alterShape w (nqs ! k) then err = PredicateDeletionViaAlter
                    else \<not> delPasses w u (nqs ! k)))"
proof (induction nqs arbitrary: acc)
  case Nil
  then show ?case by simp
next
  case (Cons nq nqs)
  show ?case
  proof (cases "alterShape w nq \<or> \<not> delPasses w u nq")
    case True
    then have "es = acc \<and> (if alterShape w nq then r = Some PredicateDeletionViaAlter else r \<noteq> None)"
      using Cons.prems
      by (auto simp: delPasses_def succeeds_def parse_def hasSubject_def split: sum.splits if_splits)
    then show ?thesis using True
      by (intro exI[of _ 0] exI[of _ "[]"]) (auto split: if_splits)
  next
    case False
    have "\<exists>new. parse w u nq DirectedEdge_DEL acc = (acc @ new, None)
            \<and> list_all2 (delEdge w u) (filter hasSubject [nq]) new"
    proof (cases "hasSubject nq")
      case False
      then show ?thesis by (simp add: parse_def hasSubject_def)
    next
      case hs: True
      then obtain edge where "ToEdgeUsing w nq u = Inr edge"
        using False by (auto simp: delPasses_def succeeds_def split: sum.splits)
      then show ?thesis using hs
        by (simp add: parse_def hasSubject_def delEdge_def)
    qed
    then obtain new where
      p: "parse w u nq DirectedEdge_DEL acc = (acc @ new, None)"
      and new: "list_all2 (delEdge w u) (filter hasSubject [nq]) new"
      by blast
    from Cons.prems False p have "delLoop w u nqs (acc @ new) = (es, r)" by simp
    from Cons.IH[OF this] obtain k ys where
      k: "k \<le> length nqs" "es = (acc @ new) @ ys"
         "list_all2 (delEdge w u) (filter hasSubject (take k nqs)) ys"
         "\<forall>x\<in>set (take k nqs). \<not> alterShape w x \<and> delPasses w u x"
         "case r of None \<Rightarrow> k = length nqs
            | Some err \<Rightarrow> k < length nqs
                \<and> (if alterShape w (nqs ! k) then err = PredicateDeletionViaAlter
                    else \<not> delPasses w u (nqs ! k))"
      by blast
    have "list_all2 (delEdge w u) (filter hasSubject [nq] @ filter hasSubject (take k nqs)) (new @ ys)"
      by (rule list_all2_appendI [OF new k(3)])
    then have "list_all2 (delEdge w u) (filter hasSubject (take (Suc k) (nq # nqs))) (new @ ys)"
      by (cases "hasSubject nq") simp_all
    then show ?thesis
      using k False
      by (intro exI[of _ "Suc k"] exI[of _ "new @ ys"]) (auto split: option.splits)
  qed
qed










subsection \<open>The order of the edges\<close>

text \<open>
  C9, as the claim states it, fails: a statement with an empty subject is skipped without
  an error, so one statement can give no edge at all.
\<close>

theorem ToInternal_skips_empty_subject:
  "length (Set skippingMutation @ Del skippingMutation) = 1
     \<and> ToInternal sampleWorld skippingMutation [] = ([], None)"
  by (simp add: ToInternal_def parse_def sampleWorld_def noSubjectNQuad_def skippingMutation_def)

text \<open>
  C9, amended. When ToInternal returns no error, its edges are the edges of the
  statements of the Set list that have a subject, in their order and stamped SET,
  followed by the edges of the statements of the Del list that have a subject, in their
  order and stamped DEL: one edge for each statement with a non-empty subject, and so as
  many edges as statements when no subject is empty.
\<close>

theorem ToInternal_order:
  assumes "ToInternal w gmu u = (edges, None)"
  shows "\<exists>ss ds. edges = ss @ ds
           \<and> list_all2 (setEdge w u) (filter hasSubject (Set gmu)) ss
           \<and> list_all2 (delEdge w u) (filter hasSubject (Del gmu)) ds
           \<and> length edges = length (filter hasSubject (Set gmu @ Del gmu))"
proof -
  obtain es r where s: "setLoop w u (Set gmu) [] = (es, r)" by (cases "setLoop w u (Set gmu) []")
  have r: "r = None" and d: "delLoop w u (Del gmu) es = (edges, None)"
    using assms s by (auto simp: ToInternal_def split: option.splits)
  from setLoop_shape [OF s] r obtain ss where
    ss: "es = ss" "list_all2 (setEdge w u) (filter hasSubject (Set gmu)) ss"
    by auto
  from delLoop_shape [OF d] obtain ds where
    ds: "edges = es @ ds" "list_all2 (delEdge w u) (filter hasSubject (Del gmu)) ds"
    by auto
  have "length ss = length (filter hasSubject (Set gmu))"
    and "length ds = length (filter hasSubject (Del gmu))"
    using ss(2) ds(2) by (simp_all add: list_all2_lengthD)
  then show ?thesis using ss ds by auto
qed

theorem ToInternal_order_witness:
  "ToInternal sampleWorld orderedMutation labelUids
      = ([knownEdge DirectedEdge_SET, labelEdge, knownEdge DirectedEdge_DEL], None)
     \<and> (\<exists>ss ds. [knownEdge DirectedEdge_SET, labelEdge, knownEdge DirectedEdge_DEL] = ss @ ds
           \<and> list_all2 (setEdge sampleWorld labelUids) (filter hasSubject (Set orderedMutation)) ss
           \<and> list_all2 (delEdge sampleWorld labelUids) (filter hasSubject (Del orderedMutation)) ds
           \<and> length [knownEdge DirectedEdge_SET, labelEdge, knownEdge DirectedEdge_DEL]
               = length (filter hasSubject (Set orderedMutation @ Del orderedMutation)))"
proof -
  have h: "ToInternal sampleWorld orderedMutation labelUids
      = ([knownEdge DirectedEdge_SET, labelEdge, knownEdge DirectedEdge_DEL], None)"
    by (simp add: ToInternal_def parse_def alterShape_def sampleWorld_def knownNQuad_def
        labelNQuad_def labelEdge_def knownEdge_def labelUids_def orderedMutation_def)
  show ?thesis
    using h ToInternal_order [OF h] by simp
qed

subsection \<open>The shape of predicate deletion in the Del list\<close>




subsection \<open>The same shape in the Set list and in the Del list\<close>




end
